theory Spec2Isabelle
  imports Main "HOL-Library.Word" "HOL-Library.Sublist" "HOL-Library.Multiset"
begin

unbundle bit_operations_syntax

section \<open>Data model of \<^verbatim>\<open>src/main.cpp\<close>\<close>

text \<open>
  \<^verbatim>\<open>uint128_t\<close> is \<^verbatim>\<open>__uint128_t\<close>, \<^verbatim>\<open>unsigned\<close> is the 32-bit unsigned
  integer of the platforms the program is written for, a PoP identifier is a
  \<^verbatim>\<open>std::uint16_t\<close>. All three wrap around.
\<close>

type_synonym uint128_t = "128 word"
type_synonym unsigned = "32 word"
type_synonym uint16_t = "16 word"

text \<open>\<^verbatim>\<open>struct address_prefix { uint128_t address; unsigned prefix_length; ... }\<close>\<close>

record address_prefix =
  address :: uint128_t
  prefix_length :: unsigned

text \<open>\<^verbatim>\<open>static constexpr uint128_t highest_bit = static_cast<uint128_t>(1) << 127;\<close>\<close>

definition highest_bit :: uint128_t where
  "highest_bit = push_bit 127 1"

text \<open>
  \<^verbatim>\<open>address_prefix::pop_bit\<close> (lines 52-60). The cursor is mutated in place, so the
  model returns the result together with the cursor after the call. The test
  \<^verbatim>\<open>prefix_length-- == 0\<close> compares the old value and decrements in both branches.
  The returned \<^verbatim>\<open>unsigned\<close> is the conversion of the local \<^verbatim>\<open>bool bit\<close>, so
  it is 0 or 1; the model keeps the \<open>bool\<close> (\<open>False\<close> is 0, \<open>True\<close> is 1).
\<close>

definition pop_bit :: "address_prefix \<Rightarrow> bool option \<times> address_prefix" where
  "pop_bit p =
     (let p1 = p\<lparr>prefix_length := prefix_length p - 1\<rparr> in
      if prefix_length p = 0 then (None, p1)
      else
        (let b = (address p1 AND highest_bit \<noteq> 0);
             p2 = p1\<lparr>address := push_bit 1 (address p1)\<rparr>
         in (Some b, p2)))"

text \<open>\<^verbatim>\<open>struct prefix_and_pop { address_prefix prefix; std::uint16_t pop; }\<close>.
  The field names carry a prefix, since \<open>pop\<close> is also the payload field of a node.\<close>

record prefix_and_pop =
  entry_prefix :: address_prefix
  entry_pop :: uint16_t

text \<open>\<^verbatim>\<open>struct pop_and_prefix_length { std::uint16_t pop; unsigned prefix_length; }\<close>,
  the result of a lookup: the PoP and the depth at which it was found.\<close>

type_synonym pop_and_prefix_length = "uint16_t \<times> unsigned"

text \<open>
  \<^verbatim>\<open>struct node { std::optional<std::uint16_t> pop; std::unique_ptr<node> children[2]; }\<close>.
  A \<^verbatim>\<open>unique_ptr\<close> is either null or owns exactly one node, so a child slot is a
  \<open>node option\<close>; \<open>children0\<close> is \<^verbatim>\<open>children[0]\<close> and \<open>children1\<close> is
  \<^verbatim>\<open>children[1]\<close>.
\<close>

datatype node = Node (pop: "uint16_t option") (children0: "node option") (children1: "node option")

text \<open>\<^verbatim>\<open>children[bit]\<close>, read and written.\<close>

definition children :: "node \<Rightarrow> bool \<Rightarrow> node option" where
  "children n b = (if b then children1 n else children0 n)"

definition set_children :: "node \<Rightarrow> bool \<Rightarrow> node \<Rightarrow> node" where
  "set_children n b c =
     (if b then Node (pop n) (children0 n) (Some c) else Node (pop n) (Some c) (children1 n))"

text \<open>\<^verbatim>\<open>std::make_unique<node>()\<close> and the initial \<^verbatim>\<open>root\<close> of a
  \<^verbatim>\<open>routing_trie\<close>: no payload, both child slots null.\<close>

definition make_node :: node where
  "make_node = Node None None None"

text \<open>\<^verbatim>\<open>struct routing_trie { node root; ... }\<close>: the trie is its root node.\<close>

type_synonym routing_trie = node

text \<open>\<^verbatim>\<open>std::abort()\<close> after the message \<^verbatim>\<open>Duplicate prefix\<close>.\<close>

datatype error = Duplicate_prefix

section \<open>Insertion\<close>

lemma pop_bit_Some_less:
  "pop_bit p = (Some b, p') \<Longrightarrow> unat (prefix_length p') < unat (prefix_length p)"
proof -
  assume a: "pop_bit p = (Some b, p')"
  then have nz: "prefix_length p \<noteq> 0"
    by (auto simp: pop_bit_def Let_def split: if_splits)
  from a nz have "prefix_length p' = prefix_length p - 1"
    by (auto simp: pop_bit_def Let_def)
  moreover from nz have "0 < unat (prefix_length p)"
    by (simp add: unat_gt_0)
  ultimately show ?thesis
    using nz by (simp add: unat_minus_one)
qed

text \<open>
  \<^verbatim>\<open>routing_trie::insert\<close> (lines 86-105). The loop
  \<^verbatim>\<open>for (auto bit = prefix.pop_bit(); bit; bit = prefix.pop_bit())\<close> walks down from
  \<open>current\<close>, creating the missing child before stepping into it; when the cursor
  yields no bit the payload of the node reached is checked and set. The source
  mutates the nodes in place; the model rebuilds the path it walked.
\<close>

function insert_loop :: "node \<Rightarrow> address_prefix \<Rightarrow> uint16_t \<Rightarrow> error + node" where
  "insert_loop current p v =
     (case pop_bit p of
        (None, p') \<Rightarrow>
          (if pop current \<noteq> None then Inl Duplicate_prefix
           else Inr (Node (Some v) (children0 current) (children1 current)))
      | (Some b, p') \<Rightarrow>
          (let child = (case children current b of None \<Rightarrow> make_node | Some c \<Rightarrow> c) in
           case insert_loop child p' v of
             Inl e \<Rightarrow> Inl e
           | Inr child' \<Rightarrow> Inr (set_children current b child')))"
  by pat_completeness auto
termination
  by (relation "measure (\<lambda>(current, p, v). unat (prefix_length p))")
    (auto dest: pop_bit_Some_less [OF sym])

text \<open>\<^verbatim>\<open>insert\<close> itself: the loop from the root, on a copy of the entry's prefix.
  (Named \<open>insert_trie\<close>: \<open>insert\<close> is the insertion into a HOL set.)\<close>

definition insert_trie :: "routing_trie \<Rightarrow> prefix_and_pop \<Rightarrow> error + routing_trie" where
  "insert_trie root e = insert_loop root (entry_prefix e) (entry_pop e)"

text \<open>
  The loop of \<^verbatim>\<open>parse_data\<close> (lines 175-183) over the rows already parsed:
  \<^verbatim>\<open>t.insert(...)\<close> for each row in turn; the abort of one insertion ends the load.
\<close>

fun insert_all :: "routing_trie \<Rightarrow> prefix_and_pop list \<Rightarrow> error + routing_trie" where
  "insert_all t [] = Inr t"
| "insert_all t (e # es) =
     (case insert_trie t e of Inl x \<Rightarrow> Inl x | Inr t' \<Rightarrow> insert_all t' es)"

definition parse_data :: "prefix_and_pop list \<Rightarrow> error + routing_trie" where
  "parse_data es = insert_all make_node es"

section \<open>Lookup\<close>

lemma size_children0: "size_option size (children0 n) < size n"
  by (cases n) simp

lemma size_children1: "size_option size (children1 n) < size n"
  by (cases n) simp

text \<open>
  \<^verbatim>\<open>routing_trie::find\<close>, first loop (lines 113-119):
  \<^verbatim>\<open>for (auto bit = prefix.pop_bit(); bit && current; bit = prefix.pop_bit())\<close>.
  A bit is popped before the test, so the cursor is advanced also when the loop
  ends. \<open>current\<close> is a nullable pointer, \<open>depth\<close> an \<^verbatim>\<open>unsigned\<close>. The last
  component counts the assignments to \<open>current\<close> (the node transitions); the
  program does not compute it.
\<close>

function find_walk ::
  "node option \<Rightarrow> unsigned \<Rightarrow> pop_and_prefix_length option \<Rightarrow> address_prefix \<Rightarrow> nat \<Rightarrow>
   node option \<times> unsigned \<times> pop_and_prefix_length option \<times> nat" where
  "find_walk current depth best p k =
     (case pop_bit p of
        (None, p') \<Rightarrow> (current, depth, best, k)
      | (Some b, p') \<Rightarrow>
          (case current of
             None \<Rightarrow> (current, depth, best, k)
           | Some n \<Rightarrow>
               (let depth' = depth + 1;
                    current' = children n b;
                    best' = (case current' of
                               None \<Rightarrow> best
                             | Some c \<Rightarrow> (case pop c of None \<Rightarrow> best | Some v \<Rightarrow> Some (v, depth')))
                in find_walk current' depth' best' p' (k + 1))))"
  by pat_completeness auto
termination
  by (relation "measure (\<lambda>(current, depth, best, p, k). unat (prefix_length p))")
    (auto dest: pop_bit_Some_less [OF sym])

text \<open>
  Second loop (lines 121-133): \<^verbatim>\<open>while (current && !best)\<close>, descending into
  \<^verbatim>\<open>children[0]\<close> when it is not null and into \<^verbatim>\<open>children[1]\<close> otherwise.
\<close>

function find_descend ::
  "node option \<Rightarrow> unsigned \<Rightarrow> pop_and_prefix_length option \<Rightarrow> nat \<Rightarrow>
   pop_and_prefix_length option \<times> nat" where
  "find_descend current depth best k =
     (case current of
        None \<Rightarrow> (best, k)
      | Some n \<Rightarrow>
          (if best \<noteq> None then (best, k)
           else
             (case pop n of
                Some v \<Rightarrow> (Some (v, depth), k)
              | None \<Rightarrow>
                  find_descend (if children0 n \<noteq> None then children0 n else children1 n)
                    (depth + 1) best (k + 1))))"
  by pat_completeness auto
termination
  by (relation "measure (\<lambda>(current, depth, best, k). size_option size current)")
    (auto simp: size_children0 size_children1 less_Suc_eq)

text \<open>The whole of \<^verbatim>\<open>find\<close>, with the number of node transitions it made, and
  \<^verbatim>\<open>find\<close> as the program returns it. (Named \<open>find_trie\<close>: \<open>find\<close> is a
  function on HOL lists.)\<close>

definition find_counted ::
  "routing_trie \<Rightarrow> address_prefix \<Rightarrow> pop_and_prefix_length option \<times> nat" where
  "find_counted root p =
     (case find_walk (Some root) 0 None p 0 of
        (current, depth, best, k) \<Rightarrow> find_descend current depth best k)"

definition find_trie :: "routing_trie \<Rightarrow> address_prefix \<Rightarrow> pop_and_prefix_length option" where
  "find_trie root p = fst (find_counted root p)"

section \<open>Bit paths and positions in the trie\<close>

text \<open>
  The sequence of bits a cursor yields until \<open>pop_bit\<close> reports exhaustion for the
  first time: the path that \<open>insert\<close> and \<open>find\<close> walk for that prefix.
\<close>

function bits :: "address_prefix \<Rightarrow> bool list" where
  "bits p = (case pop_bit p of (None, p') \<Rightarrow> [] | (Some b, p') \<Rightarrow> b # bits p')"
  by pat_completeness auto
termination
  by (relation "measure (\<lambda>p. unat (prefix_length p))")
    (auto dest: pop_bit_Some_less [OF sym])

text \<open>
  The two loops over a path instead of a cursor. \<open>insert_bits\<close> and \<open>walk_bits\<close>
  make the same steps as \<open>insert_loop\<close> and \<open>find_walk\<close>, bit for bit
  (\<open>insert_loop_bits\<close> and \<open>find_walk_bits\<close> below prove them equal on the bits of
  the cursor); the proofs about the trie are done on them.
\<close>

fun insert_bits :: "node \<Rightarrow> bool list \<Rightarrow> uint16_t \<Rightarrow> error + node" where
  "insert_bits current [] v =
     (if pop current \<noteq> None then Inl Duplicate_prefix
      else Inr (Node (Some v) (children0 current) (children1 current)))"
| "insert_bits current (b # bs) v =
     (case insert_bits (case children current b of None \<Rightarrow> make_node | Some c \<Rightarrow> c) bs v of
        Inl e \<Rightarrow> Inl e
      | Inr child' \<Rightarrow> Inr (set_children current b child'))"

fun walk_bits ::
  "node option \<Rightarrow> unsigned \<Rightarrow> pop_and_prefix_length option \<Rightarrow> bool list \<Rightarrow> nat \<Rightarrow>
   node option \<times> unsigned \<times> pop_and_prefix_length option \<times> nat" where
  "walk_bits current depth best [] k = (current, depth, best, k)"
| "walk_bits None depth best (b # bs) k = (None, depth, best, k)"
| "walk_bits (Some n) depth best (b # bs) k =
     walk_bits (children n b) (depth + 1)
       (case children n b of
          None \<Rightarrow> best
        | Some c \<Rightarrow> (case pop c of None \<Rightarrow> best | Some v \<Rightarrow> Some (v, depth + 1)))
       bs (k + 1)"

text \<open>
  The node reached from \<open>n\<close> along a path, if every child on the way exists, and the
  payload stored there. A position without a node has no payload.
\<close>

fun node_at :: "node \<Rightarrow> bool list \<Rightarrow> node option" where
  "node_at n [] = Some n"
| "node_at n (b # bs) = (case children n b of None \<Rightarrow> None | Some c \<Rightarrow> node_at c bs)"

definition payload_at :: "node \<Rightarrow> bool list \<Rightarrow> uint16_t option" where
  "payload_at n bs = (case node_at n bs of None \<Rightarrow> None | Some m \<Rightarrow> pop m)"

text \<open>
  A node is populated when it holds a payload or has a child, and its children are
  populated: then every node of its subtree has a payload at or below it.
\<close>

fun populated :: "node \<Rightarrow> bool" where
  "populated (Node p l r) =
     ((p \<noteq> None \<or> l \<noteq> None \<or> r \<noteq> None) \<and>
      (case l of None \<Rightarrow> True | Some c \<Rightarrow> populated c) \<and>
      (case r of None \<Rightarrow> True | Some c \<Rightarrow> populated c))"

text \<open>
  The descent of the specification, section 4.3, in its words: from a node, stop if it
  holds a payload, otherwise move to its 0-child if one exists, else to its 1-child; if
  neither exists there is no result. The value is the path walked to the first payload.
  The second loop of \<open>find\<close> is compared with it in C2.
\<close>

fun first_payload_path :: "node \<Rightarrow> bool list option" where
  "first_payload_path (Node p l r) =
     (if p \<noteq> None then Some []
      else (case l of
              Some c \<Rightarrow> map_option ((#) False) (first_payload_path c)
            | None \<Rightarrow> (case r of
                         Some c \<Rightarrow> map_option ((#) True) (first_payload_path c)
                       | None \<Rightarrow> None)))"

text \<open>The position of a table row in the trie: the bits of its prefix.\<close>

definition position :: "prefix_and_pop \<Rightarrow> bool list" where
  "position e = bits (entry_prefix e)"

text \<open>A table row written as address, length and PoP.\<close>

abbreviation entry :: "uint128_t \<Rightarrow> unsigned \<Rightarrow> uint16_t \<Rightarrow> prefix_and_pop" where
  "entry a l v \<equiv> \<lparr>entry_prefix = \<lparr>address = a, prefix_length = l\<rparr>, entry_pop = v\<rparr>"

section \<open>The cursor\<close>

declare bits.simps [simp del] insert_loop.simps [simp del] find_walk.simps [simp del]
  find_descend.simps [simp del]

lemma highest_bit_test: "(a AND highest_bit \<noteq> 0) = bit (a :: uint128_t) 127"
  by (simp add: highest_bit_def bit_iff_and_push_bit_not_eq_0)

lemma pop_bit_zero:
  "prefix_length p = 0 \<Longrightarrow> pop_bit p = (None, p\<lparr>prefix_length := prefix_length p - 1\<rparr>)"
  by (simp add: pop_bit_def Let_def)

lemma pop_bit_nonzero:
  "prefix_length p \<noteq> 0 \<Longrightarrow>
   pop_bit p = (Some (bit (address p) 127),
                \<lparr>address = push_bit 1 (address p), prefix_length = prefix_length p - 1\<rparr>)"
  by (simp add: pop_bit_def Let_def highest_bit_test)

lemma bits_zero: "prefix_length p = 0 \<Longrightarrow> bits p = []"
  by (subst bits.simps) (simp add: pop_bit_zero)

lemma bits_nonzero:
  "prefix_length p \<noteq> 0 \<Longrightarrow>
   bits p = bit (address p) 127 #
            bits \<lparr>address = push_bit 1 (address p), prefix_length = prefix_length p - 1\<rparr>"
  by (subst bits.simps) (simp add: pop_bit_nonzero)

lemma length_bits: "length (bits p) = unat (prefix_length p)"
proof (induction p rule: bits.induct)
  case (1 p)
  show ?case
  proof (cases "prefix_length p = 0")
    case True
    then show ?thesis by (simp add: bits_zero)
  next
    case False
    then have "0 < unat (prefix_length p)" by (simp add: unat_gt_0)
    with False 1 [OF pop_bit_nonzero [OF False, symmetric] refl] show ?thesis
      by (simp add: bits_nonzero unat_minus_one)
  qed
qed

lemma of_nat_length_bits: "of_nat (length (bits p)) = prefix_length p"
  by (simp add: length_bits)

lemma bits_Nil_iff: "bits p = [] \<longleftrightarrow> prefix_length p = 0"
  by (metis length_bits length_0_conv unat_eq_zero)

lemma insert_loop_bits: "insert_loop current p v = insert_bits current (bits p) v"
proof (induction current p v rule: insert_loop.induct)
  case (1 current p v)
  show ?case
  proof (cases "prefix_length p = 0")
    case True
    then show ?thesis
      by (subst insert_loop.simps) (simp add: bits_zero pop_bit_zero)
  next
    case False
    note ih = 1 [OF pop_bit_nonzero [OF False, symmetric] refl refl]
    show ?thesis
      using ih
      by (subst insert_loop.simps) (simp add: bits_nonzero [OF False] pop_bit_nonzero [OF False])
  qed
qed

lemma find_walk_None: "find_walk None depth best p k = (None, depth, best, k)"
  by (subst find_walk.simps) (simp split: prod.splits option.splits)

lemma walk_bits_None [simp]: "walk_bits None depth best bs k = (None, depth, best, k)"
  by (cases bs) simp_all

lemma find_walk_bits: "find_walk current depth best p k = walk_bits current depth best (bits p) k"
proof (induction current depth best p k rule: find_walk.induct)
  case (1 current depth best p k)
  show ?case
  proof (cases "prefix_length p = 0")
    case True
    then show ?thesis
      by (subst find_walk.simps) (simp add: bits_zero pop_bit_zero)
  next
    case False
    show ?thesis
    proof (cases current)
      case None
      then show ?thesis by (simp add: find_walk_None)
    next
      case (Some n)
      note ih = 1 [OF pop_bit_nonzero [OF False, symmetric] refl Some refl refl refl]
      show ?thesis
        using ih
        by (subst find_walk.simps)
          (simp add: Some bits_nonzero [OF False] pop_bit_nonzero [OF False] Let_def)
    qed
  qed
qed

section \<open>Nodes and paths\<close>

lemma children_set_children [simp]:
  "children (set_children n b c) b' = (if b' = b then Some c else children n b')"
  by (auto simp: children_def set_children_def)

lemma pop_set_children [simp]: "pop (set_children n b c) = pop n"
  by (simp add: set_children_def)

lemma children_make_node [simp]: "children make_node b = None"
  by (simp add: children_def make_node_def)

lemma pop_make_node [simp]: "pop make_node = None"
  by (simp add: make_node_def)

lemma children_True [simp]: "children n True = children1 n"
  by (simp add: children_def)

lemma children_False [simp]: "children n False = children0 n"
  by (simp add: children_def)

lemma children_Node [simp]: "children (Node p l r) b = (if b then r else l)"
  by (simp add: children_def)

lemma node_at_make_node: "node_at make_node bs = (if bs = [] then Some make_node else None)"
  by (cases bs) simp_all

lemma payload_at_Nil [simp]: "payload_at n [] = pop n"
  by (simp add: payload_at_def)

lemma payload_at_Cons:
  "payload_at n (b # bs) = (case children n b of None \<Rightarrow> None | Some c \<Rightarrow> payload_at c bs)"
  by (simp add: payload_at_def split: option.splits)

lemma payload_at_make_node [simp]: "payload_at make_node bs = None"
  by (cases bs) (simp_all add: payload_at_Cons)

lemma node_at_append:
  "node_at n (xs @ ys) = (case node_at n xs of None \<Rightarrow> None | Some m \<Rightarrow> node_at m ys)"
  by (induction xs arbitrary: n) (auto split: option.splits)

lemma payload_at_append:
  "payload_at n (xs @ ys) = (case node_at n xs of None \<Rightarrow> None | Some m \<Rightarrow> payload_at m ys)"
  by (simp add: payload_at_def node_at_append split: option.splits)

subsection \<open>One insertion\<close>

lemma insert_bits_Inl_iff: "(\<exists>x. insert_bits n bs v = Inl x) \<longleftrightarrow> payload_at n bs \<noteq> None"
proof (induction bs arbitrary: n)
  case Nil
  show ?case by simp
next
  case (Cons b bs)
  show ?case
  proof (cases "children n b")
    case None
    with Cons [of make_node] show ?thesis
      by (auto simp: payload_at_Cons split: sum.splits)
  next
    case (Some c)
    with Cons [of c] show ?thesis
      by (auto simp: payload_at_Cons split: sum.splits)
  qed
qed

lemma insert_bits_Inr_iff: "(\<exists>n'. insert_bits n bs v = Inr n') \<longleftrightarrow> payload_at n bs = None"
  using insert_bits_Inl_iff [of n bs v] by (cases "insert_bits n bs v") auto

lemma node_at_insert_bits:
  "insert_bits n bs v = Inr n' \<Longrightarrow>
   node_at n' cs \<noteq> None \<longleftrightarrow> node_at n cs \<noteq> None \<or> Sublist.prefix cs bs"
proof (induction bs arbitrary: n n' cs)
  case Nil
  then show ?case
    by (cases cs) (auto split: if_splits)
next
  case (Cons b bs)
  let ?c = "case children n b of None \<Rightarrow> make_node | Some c \<Rightarrow> c"
  from Cons.prems obtain c' where c': "insert_bits ?c bs v = Inr c'"
    and n': "n' = set_children n b c'"
    by (auto split: sum.splits)
  show ?case
  proof (cases cs)
    case Nil
    then show ?thesis by simp
  next
    case (Cons d ds)
    show ?thesis
    proof (cases "d = b")
      case True
      with Cons n' Cons.IH [OF c', of ds] show ?thesis
        by (auto simp: node_at_make_node split: option.splits)
    next
      case False
      with Cons n' show ?thesis by simp
    qed
  qed
qed

lemma payload_at_insert_bits:
  "insert_bits n bs v = Inr n' \<Longrightarrow>
   payload_at n' cs = (if cs = bs then Some v else payload_at n cs)"
proof (induction bs arbitrary: n n' cs)
  case Nil
  then show ?case
    by (cases cs) (auto simp: payload_at_Cons split: if_splits)
next
  case (Cons b bs)
  let ?c = "case children n b of None \<Rightarrow> make_node | Some c \<Rightarrow> c"
  from Cons.prems obtain c' where c': "insert_bits ?c bs v = Inr c'"
    and n': "n' = set_children n b c'"
    by (auto split: sum.splits)
  show ?case
  proof (cases cs)
    case Nil
    then show ?thesis by (simp add: n')
  next
    case (Cons d ds)
    show ?thesis
    proof (cases "d = b")
      case True
      with Cons n' Cons.IH [OF c', of ds] show ?thesis
        by (auto simp: payload_at_Cons split: option.splits)
    next
      case False
      with Cons n' show ?thesis by (simp add: payload_at_Cons)
    qed
  qed
qed

subsection \<open>Extensionality\<close>

lemma node_ext:
  "(\<And>cs. node_at t cs = None \<longleftrightarrow> node_at t' cs = None) \<Longrightarrow>
   (\<And>cs. payload_at t cs = payload_at t' cs) \<Longrightarrow> t = t'"
proof (induction t arbitrary: t')
  case (Node p l r)
  obtain p' l' r' where t': "t' = Node p' l' r'" by (cases t')
  from Node.prems(2) [of "[]"] have p: "p = p'" by (simp add: t')
  have child: "x = x'"
    if x: "x = children (Node p l r) b" and x': "x' = children t' b"
      and ih: "\<And>c c'. x = Some c \<Longrightarrow>
         (\<And>cs. node_at c cs = None \<longleftrightarrow> node_at c' cs = None) \<Longrightarrow>
         (\<And>cs. payload_at c cs = payload_at c' cs) \<Longrightarrow> c = c'"
    for x x' b
  proof (cases x)
    case None
    with Node.prems(1) [of "[b]"] x x' show ?thesis
      by (auto split: option.splits)
  next
    case (Some c)
    with Node.prems(1) [of "[b]"] x x' obtain c' where c': "x' = Some c'"
      by (auto split: option.splits)
    have "c = c'"
    proof (rule ih [OF Some])
      fix cs
      from Node.prems(1) [of "b # cs"] Some c' x x'
      show "node_at c cs = None \<longleftrightarrow> node_at c' cs = None" by simp
      from Node.prems(2) [of "b # cs"] Some c' x x'
      show "payload_at c cs = payload_at c' cs" by (simp add: payload_at_Cons)
    qed
    with Some c' show ?thesis by simp
  qed
  have "l = l'"
    by (rule child [of l False l']) (auto simp: t' intro: Node.IH(1))
  moreover have "r = r'"
    by (rule child [of r True r']) (auto simp: t' intro: Node.IH(2))
  ultimately show ?case by (simp add: t' p)
qed

lemma insert_trie_bits: "insert_trie t e = insert_bits t (position e) (entry_pop e)"
  by (simp add: insert_trie_def insert_loop_bits position_def)

subsection \<open>A whole load\<close>

lemma insert_all_distinct:
  "insert_all t es = Inr t' \<Longrightarrow>
   distinct (map position es) \<and> (\<forall>e\<in>set es. payload_at t (position e) = None)"
proof (induction es arbitrary: t)
  case Nil
  show ?case by simp
next
  case (Cons e es)
  from Cons.prems obtain t1 where t1: "insert_trie t e = Inr t1"
    and rest: "insert_all t1 es = Inr t'"
    by (auto split: sum.splits)
  from t1 have free: "payload_at t (position e) = None"
    using insert_bits_Inr_iff [of t "position e" "entry_pop e"] by (simp add: insert_trie_bits)
  from t1 have after: "payload_at t1 cs = (if cs = position e then Some (entry_pop e) else payload_at t cs)" for cs
    by (simp add: insert_trie_bits payload_at_insert_bits)
  from Cons.IH [OF rest] have d: "distinct (map position es)"
    and f: "\<forall>x\<in>set es. payload_at t1 (position x) = None" by simp_all
  from f after have "position e \<notin> position ` set es"
    by (metis imageE option.distinct(1))
  moreover from f after have "\<forall>x\<in>set es. payload_at t (position x) = None"
    by (metis option.distinct(1))
  ultimately show ?case using d free by simp
qed

lemma insert_all_succeeds:
  "distinct (map position es) \<Longrightarrow> \<forall>e\<in>set es. payload_at t (position e) = None \<Longrightarrow>
   \<exists>t'. insert_all t es = Inr t'"
proof (induction es arbitrary: t)
  case Nil
  show ?case by simp
next
  case (Cons e es)
  from Cons.prems(2) have "payload_at t (position e) = None" by simp
  then obtain t1 where t1: "insert_trie t e = Inr t1"
    using insert_bits_Inr_iff [of t "position e" "entry_pop e"] by (auto simp: insert_trie_bits)
  then have after: "payload_at t1 cs = (if cs = position e then Some (entry_pop e) else payload_at t cs)" for cs
    by (simp add: insert_trie_bits payload_at_insert_bits)
  from Cons.prems have "\<forall>x\<in>set es. payload_at t1 (position x) = None"
    by (auto simp: after image_iff)
  with Cons.IH [of t1] Cons.prems(1) obtain t' where "insert_all t1 es = Inr t'" by auto
  with t1 show ?case by simp
qed

lemma node_at_insert_all:
  "insert_all t es = Inr t' \<Longrightarrow>
   node_at t' cs \<noteq> None \<longleftrightarrow>
     node_at t cs \<noteq> None \<or> (\<exists>e\<in>set es. Sublist.prefix cs (position e))"
proof (induction es arbitrary: t)
  case Nil
  then show ?case by simp
next
  case (Cons e es)
  from Cons.prems obtain t1 where t1: "insert_trie t e = Inr t1"
    and rest: "insert_all t1 es = Inr t'"
    by (auto split: sum.splits)
  from t1 have "insert_bits t (position e) (entry_pop e) = Inr t1"
    by (simp add: insert_trie_bits)
  from node_at_insert_bits [OF this, of cs] Cons.IH [OF rest] show ?case by auto
qed

lemma payload_at_insert_all:
  "insert_all t es = Inr t' \<Longrightarrow>
   payload_at t' cs = Some v \<longleftrightarrow>
     payload_at t cs = Some v \<or> (\<exists>e\<in>set es. position e = cs \<and> entry_pop e = v)"
proof (induction es arbitrary: t)
  case Nil
  then show ?case by simp
next
  case (Cons e es)
  from Cons.prems obtain t1 where t1: "insert_trie t e = Inr t1"
    and rest: "insert_all t1 es = Inr t'"
    by (auto split: sum.splits)
  from t1 have free: "payload_at t (position e) = None"
    using insert_bits_Inr_iff [of t "position e" "entry_pop e"] by (simp add: insert_trie_bits)
  from t1 have after: "payload_at t1 cs = (if cs = position e then Some (entry_pop e) else payload_at t cs)"
    by (simp add: insert_trie_bits payload_at_insert_bits)
  from Cons.IH [OF rest] after free show ?case by auto
qed

lemma node_at_parse_data:
  "parse_data es = Inr t \<Longrightarrow>
   node_at t cs \<noteq> None \<longleftrightarrow> cs = [] \<or> (\<exists>e\<in>set es. Sublist.prefix cs (position e))"
  using node_at_insert_all [of make_node es t cs]
  by (auto simp: parse_data_def node_at_make_node)

lemma payload_at_parse_data:
  "parse_data es = Inr t \<Longrightarrow>
   payload_at t cs = Some v \<longleftrightarrow> (\<exists>e\<in>set es. position e = cs \<and> entry_pop e = v)"
  using payload_at_insert_all [of make_node es t cs v]
  by (simp add: parse_data_def)

lemma parse_data_distinct: "parse_data es = Inr t \<Longrightarrow> distinct (map position es)"
  by (simp add: parse_data_def insert_all_distinct)

lemma parse_data_succeeds: "distinct (map position es) \<Longrightarrow> \<exists>t. parse_data es = Inr t"
  by (simp add: parse_data_def insert_all_succeeds)

lemma payload_at_entry:
  "parse_data es = Inr t \<Longrightarrow> e \<in> set es \<Longrightarrow> payload_at t (position e) = Some (entry_pop e)"
  using payload_at_parse_data [of es t "position e" "entry_pop e"] by auto

lemma parse_data_permutation:
  assumes "parse_data es = Inr t" and "parse_data es' = Inr t'" and "set es = set es'"
  shows "t = t'"
proof (rule node_ext)
  fix cs
  have "node_at t cs \<noteq> None \<longleftrightarrow> node_at t' cs \<noteq> None"
    unfolding node_at_parse_data [OF assms(1)] node_at_parse_data [OF assms(2)] assms(3) ..
  then show "node_at t cs = None \<longleftrightarrow> node_at t' cs = None" by blast
  have "payload_at t cs = Some v \<longleftrightarrow> payload_at t' cs = Some v" for v
    unfolding payload_at_parse_data [OF assms(1)] payload_at_parse_data [OF assms(2)] assms(3) ..
  then show "payload_at t cs = payload_at t' cs"
    by (metis not_Some_eq)
qed

subsection \<open>Populated nodes\<close>

lemma populated_children: "populated n \<Longrightarrow> children n b = Some c \<Longrightarrow> populated c"
  by (cases n) (auto split: if_splits)

lemma populated_node_at: "populated n \<Longrightarrow> node_at n cs = Some m \<Longrightarrow> populated m"
  by (induction cs arbitrary: n) (auto split: option.splits dest: populated_children)

lemma populated_iff:
  "populated n \<longleftrightarrow>
     (pop n \<noteq> None \<or> children0 n \<noteq> None \<or> children1 n \<noteq> None) \<and>
     (\<forall>c. children0 n = Some c \<longrightarrow> populated c) \<and>
     (\<forall>c. children1 n = Some c \<longrightarrow> populated c)"
  by (cases n) (auto split: option.splits)

lemma populated_insert_bits:
  "insert_bits n bs v = Inr n' \<Longrightarrow> populated n \<or> n = make_node \<Longrightarrow> populated n'"
proof (induction bs arbitrary: n n')
  case Nil
  then show ?case
    by (auto simp: make_node_def populated_iff [of n] split: if_splits option.splits)
next
  case (Cons b bs)
  let ?c = "case children n b of None \<Rightarrow> make_node | Some c \<Rightarrow> c"
  from Cons.prems(1) obtain c' where c': "insert_bits ?c bs v = Inr c'"
    and n': "n' = set_children n b c'"
    by (auto split: sum.splits)
  from Cons.prems(2) have "populated ?c \<or> ?c = make_node"
    by (auto split: option.splits dest: populated_children)
  with Cons.IH [OF c'] have pc: "populated c'" by simp
  from Cons.prems(2) show ?case
  proof
    assume "populated n"
    with pc show ?thesis
      unfolding n' by (cases b) (auto simp: set_children_def populated_iff [of n] split: option.splits)
  next
    assume "n = make_node"
    with pc show ?thesis
      unfolding n' by (cases b) (auto simp: set_children_def make_node_def)
  qed
qed

lemma populated_insert_all:
  "insert_all t es = Inr t' \<Longrightarrow> populated t \<or> t = make_node \<Longrightarrow>
   populated t' \<or> (t' = make_node \<and> es = [])"
proof (induction es arbitrary: t)
  case Nil
  then show ?case by auto
next
  case (Cons e es)
  from Cons.prems(1) obtain t1 where t1: "insert_trie t e = Inr t1"
    and rest: "insert_all t1 es = Inr t'"
    by (auto split: sum.splits)
  from t1 Cons.prems(2) have "populated t1"
    by (auto simp: insert_trie_bits dest: populated_insert_bits)
  with Cons.IH [OF rest] rest show ?case by auto
qed

lemma parse_data_populated: "parse_data es = Inr t \<Longrightarrow> es \<noteq> [] \<Longrightarrow> populated t"
  using populated_insert_all [of make_node es t] by (auto simp: parse_data_def)

lemma parse_data_Nil: "parse_data [] = Inr make_node"
  by (simp add: parse_data_def)

lemma parse_data_inner_populated:
  assumes "parse_data es = Inr t" and "node_at t cs = Some n" and "cs \<noteq> []"
  shows "populated n"
proof (cases es)
  case Nil
  with assms show ?thesis by (simp add: parse_data_Nil node_at_make_node)
next
  case (Cons e es')
  with assms(1) have "populated t" by (auto dest: parse_data_populated)
  with assms(2) show ?thesis by (blast intro: populated_node_at)
qed

subsection \<open>The walk along the bits of the query\<close>

lemma walk_bits_current:
  "walk_bits (Some n) depth best bs k = (current', depth', best', k') \<Longrightarrow> current' = node_at n bs"
proof (induction bs arbitrary: n depth best k)
  case Nil
  then show ?case by simp
next
  case (Cons b bs)
  then show ?case by (cases "children n b") auto
qed

lemma walk_bits_count:
  "walk_bits current depth best bs k = (current', depth', best', k') \<Longrightarrow>
   k \<le> k' \<and> k' \<le> k + length bs \<and> depth' = depth + of_nat (k' - k)"
proof (induction current depth best bs k rule: walk_bits.induct)
  case (1 current depth best k)
  then show ?case by simp
next
  case (2 depth best b bs k)
  then show ?case by simp
next
  case (3 n depth best b bs k)
  from "3.prems" have "walk_bits (children n b) (depth + 1)
      (case children n b of None \<Rightarrow> best
       | Some c \<Rightarrow> (case pop c of None \<Rightarrow> best | Some v \<Rightarrow> Some (v, depth + 1)))
      bs (k + 1) = (current', depth', best', k')"
    by (simp only: walk_bits.simps)
  from "3.IH" [OF this] show ?case
    by (auto simp: Suc_diff_le add.assoc)
qed

lemma walk_bits_landed:
  "walk_bits (Some n) depth best bs k = (Some m, depth', best', k') \<Longrightarrow>
   k' = k + length bs \<and> depth' = depth + of_nat (length bs)"
proof (induction bs arbitrary: n depth best k)
  case Nil
  then show ?case by simp
next
  case (Cons b bs)
  show ?case
  proof (cases "children n b")
    case None
    with Cons.prems show ?thesis by simp
  next
    case (Some c)
    with Cons.prems Cons.IH [of c "depth + 1" _ "k + 1"] show ?thesis
      by (auto simp: add.assoc)
  qed
qed

lemma walk_bits_best_unchanged:
  "walk_bits (Some n) depth best bs k = (current', depth', best', k') \<Longrightarrow>
   (\<And>zs. zs \<noteq> [] \<Longrightarrow> Sublist.prefix zs bs \<Longrightarrow> payload_at n zs = None) \<Longrightarrow>
   best' = best"
proof (induction bs arbitrary: n depth best k)
  case Nil
  then show ?case by simp
next
  case (Cons b bs)
  show ?case
  proof (cases "children n b")
    case None
    with Cons.prems(1) show ?thesis by simp
  next
    case (Some c)
    from Cons.prems(2) [of "[b]"] Some have pc: "pop c = None"
      by (simp add: payload_at_Cons)
    have below: "payload_at c zs = None" if "zs \<noteq> []" "Sublist.prefix zs bs" for zs
      using Cons.prems(2) [of "b # zs"] that Some by (simp add: payload_at_Cons)
    from Cons.prems(1) Some pc
    have "walk_bits (Some c) (depth + 1) best bs (k + 1) = (current', depth', best', k')"
      by simp
    from Cons.IH [OF this below] show ?thesis .
  qed
qed

lemma walk_bits_best_deepest:
  "walk_bits (Some n) depth best (xs @ ys) k = (current', depth', best', k') \<Longrightarrow>
   xs \<noteq> [] \<Longrightarrow> payload_at n xs = Some v \<Longrightarrow>
   (\<And>zs. zs \<noteq> [] \<Longrightarrow> Sublist.prefix zs ys \<Longrightarrow> payload_at n (xs @ zs) = None) \<Longrightarrow>
   best' = Some (v, depth + of_nat (length xs))"
proof (induction xs arbitrary: n depth best k)
  case Nil
  then show ?case by simp
next
  case (Cons b xs)
  from Cons.prems(3) obtain c where c: "children n b = Some c"
    and pv: "payload_at c xs = Some v"
    by (auto simp: payload_at_Cons split: option.splits)
  let ?best1 = "case pop c of None \<Rightarrow> best | Some w \<Rightarrow> Some (w, depth + 1)"
  from Cons.prems(1) c
  have step: "walk_bits (Some c) (depth + 1) ?best1 (xs @ ys) (k + 1) = (current', depth', best', k')"
    by simp
  have below: "payload_at c (xs @ zs) = None" if "zs \<noteq> []" "Sublist.prefix zs ys" for zs
    using Cons.prems(4) [OF that] c by (simp add: payload_at_Cons)
  show ?case
  proof (cases "xs = []")
    case True
    with pv have "?best1 = Some (v, depth + 1)" by simp
    moreover from True step below have "best' = ?best1"
      by (auto intro: walk_bits_best_unchanged [where bs = ys])
    ultimately show ?thesis using True by simp
  next
    case False
    from Cons.IH [OF step False pv below] show ?thesis
      by (simp add: add.assoc)
  qed
qed

subsection \<open>The descent to the first payload\<close>

lemma find_descend_None [simp]: "find_descend None depth best k = (best, k)"
  by (simp add: find_descend.simps)

lemma find_descend_best: "best \<noteq> None \<Longrightarrow> find_descend current depth best k = (best, k)"
  by (subst find_descend.simps) (simp split: option.splits)

lemma find_descend_make_node: "find_descend (Some make_node) depth None k = (None, k + 1)"
  by (subst find_descend.simps) (simp add: make_node_def)

lemma first_payload_path_populated: "populated n \<Longrightarrow> \<exists>ds. first_payload_path n = Some ds"
proof (induction n)
  case (Node p l r)
  then show ?case
    by (cases l; cases r) auto
qed

lemma first_payload_path_payload:
  "first_payload_path n = Some ds \<Longrightarrow> \<exists>v. payload_at n ds = Some v"
proof (induction n arbitrary: ds)
  case (Node p l r)
  then show ?case
    by (cases l; cases r) (auto simp: payload_at_Cons split: if_splits)
qed

lemma find_descend_first_payload_path:
  "first_payload_path n = Some ds \<Longrightarrow> payload_at n ds = Some v \<Longrightarrow>
   find_descend (Some n) depth None k = (Some (v, depth + of_nat (length ds)), k + length ds)"
proof (induction n arbitrary: ds depth k)
  case (Node p l r)
  show ?case
  proof (cases p)
    case (Some w)
    with Node.prems show ?thesis
      by (subst find_descend.simps) simp
  next
    case None
    show ?thesis
    proof (cases l)
      case (Some c)
      with None Node.prems obtain ds' where ds: "ds = False # ds'"
        and f: "first_payload_path c = Some ds'" and pv: "payload_at c ds' = Some v"
        by (auto simp: payload_at_Cons)
      from Node.IH(1) [of c ds' "depth + 1" "k + 1"] Some f pv
      have "find_descend (Some c) (depth + 1) None (k + 1) =
          (Some (v, depth + 1 + of_nat (length ds')), k + 1 + length ds')" by simp
      with None Some ds show ?thesis
        by (subst find_descend.simps) (simp add: add.assoc)
    next
      case lNone: None
      show ?thesis
      proof (cases r)
        case (Some c)
        with None lNone Node.prems obtain ds' where ds: "ds = True # ds'"
          and f: "first_payload_path c = Some ds'" and pv: "payload_at c ds' = Some v"
          by (auto simp: payload_at_Cons)
        from Node.IH(2) [of c ds' "depth + 1" "k + 1"] Some f pv
        have "find_descend (Some c) (depth + 1) None (k + 1) =
            (Some (v, depth + 1 + of_nat (length ds')), k + 1 + length ds')" by simp
        with None lNone Some ds show ?thesis
          by (subst find_descend.simps) (simp add: add.assoc)
      next
        case None
        with \<open>p = None\<close> lNone Node.prems show ?thesis by simp
      qed
    qed
  qed
qed

lemma bits_eq_map:
  "bits p = map (\<lambda>i. i < 128 \<and> bit (address p) (127 - i)) [0..<unat (prefix_length p)]"
proof (induction p rule: bits.induct)
  case (1 p)
  show ?case
  proof (cases "prefix_length p = 0")
    case True
    then show ?thesis by (simp add: bits_zero)
  next
    case False
    let ?p' = "\<lparr>address = push_bit 1 (address p), prefix_length = prefix_length p - 1\<rparr>"
    from False have pos: "0 < unat (prefix_length p)" by (simp add: unat_gt_0)
    then obtain m where m: "unat (prefix_length p) = Suc m" by (cases "unat (prefix_length p)") auto
    with False have m': "unat (prefix_length ?p') = m" by (simp add: unat_minus_one)
    have shift: "(i < 128 \<and> bit (push_bit 1 (address p)) (127 - i)) =
                 (Suc i < 128 \<and> bit (address p) (127 - Suc i))" for i
      unfolding bit_push_bit_iff by (auto simp: possible_bit_word)
    from 1 [OF pop_bit_nonzero [OF False, symmetric] refl]
    have "bits ?p' = map (\<lambda>i. i < 128 \<and> bit (push_bit 1 (address p)) (127 - i)) [0..<m]"
      unfolding m' by (simp del: push_bit_of_1)
    also have "\<dots> = map (\<lambda>i. Suc i < 128 \<and> bit (address p) (127 - Suc i)) [0..<m]"
      by (simp only: shift)
    finally have tl: "bits ?p' = map ((\<lambda>i. i < 128 \<and> bit (address p) (127 - i)) \<circ> Suc) [0..<m]"
      by (simp add: comp_def)
    have "[0..<Suc m] = 0 # map Suc [0..<m]"
      by (simp add: upt_conv_Cons map_Suc_upt del: upt_Suc)
    then show ?thesis
      unfolding bits_nonzero [OF False] m tl by (simp del: upt_Suc)
  qed
qed

subsection \<open>Lookup in terms of paths\<close>

lemma find_counted_walk:
  "find_walk (Some t) 0 None q 0 = (current, depth, best, k) \<Longrightarrow>
   find_counted t q = find_descend current depth best k"
  by (simp add: find_counted_def)

lemma find_trie_walk:
  "find_walk (Some t) 0 None q 0 = (current, depth, best, k) \<Longrightarrow>
   find_trie t q = fst (find_descend current depth best k)"
  by (simp add: find_trie_def find_counted_def)

lemma find_walk_current:
  "find_walk (Some t) 0 None q 0 = (current, depth, best, k) \<Longrightarrow> current = node_at t (bits q)"
  by (simp add: find_walk_bits walk_bits_current)

lemma find_walk_landed:
  "find_walk (Some t) 0 None q 0 = (Some n, depth, best, k) \<Longrightarrow>
   node_at t (bits q) = Some n \<and> k = unat (prefix_length q) \<and> depth = prefix_length q"
  using walk_bits_landed [of t 0 None "bits q" 0 n depth best k]
    walk_bits_current [of t 0 None "bits q" 0 "Some n" depth best k]
  by (simp add: find_walk_bits length_bits)

lemma find_descend_populated:
  assumes "populated n"
  shows "\<exists>ds v. first_payload_path n = Some ds \<and> payload_at n ds = Some v \<and>
    find_descend (Some n) depth None k = (Some (v, depth + of_nat (length ds)), k + length ds)"
proof -
  from assms obtain ds where ds: "first_payload_path n = Some ds"
    using first_payload_path_populated by blast
  then obtain v where v: "payload_at n ds = Some v"
    using first_payload_path_payload by blast
  from find_descend_first_payload_path [OF ds v] ds v show ?thesis by blast
qed

lemma position_inj:
  "parse_data es = Inr t \<Longrightarrow> e \<in> set es \<Longrightarrow> e' \<in> set es \<Longrightarrow> position e' = position e \<Longrightarrow> e' = e"
  using parse_data_distinct [of es t] by (auto simp: distinct_map dest: inj_onD)

lemma of_nat_length_position: "of_nat (length (position e)) = prefix_length (entry_prefix e)"
  by (simp add: position_def length_bits)

lemma length_position: "length (position e) = unat (prefix_length (entry_prefix e))"
  by (simp add: position_def length_bits)

lemma walk_bits_root_payload:
  "fst (snd (snd (walk_bits (Some (Node p l r)) depth best bs k))) =
   fst (snd (snd (walk_bits (Some (Node p' l r)) depth best bs k)))"
  by (cases bs) simp_all

lemma parse_data_depth:
  assumes "parse_data es = Inr t"
    and "\<forall>e\<in>set es. unat (prefix_length (entry_prefix e)) \<le> 128"
    and "node_at t cs \<noteq> None"
  shows "length cs \<le> 128"
proof -
  from assms(1,3) have "cs = [] \<or> (\<exists>e\<in>set es. Sublist.prefix cs (position e))"
    using node_at_parse_data [of es t cs] by simp
  then show ?thesis
  proof
    assume "cs = []"
    then show ?thesis by simp
  next
    assume "\<exists>e\<in>set es. Sublist.prefix cs (position e)"
    then obtain e where e: "e \<in> set es" "Sublist.prefix cs (position e)" by blast
    from e(2) have "length cs \<le> length (position e)" by (rule prefix_length_le)
    with assms(2) e(1) show ?thesis by (auto simp: length_position)
  qed
qed

text \<open>
  A query diverges from the table when its bits are a prefix of no entry and no entry
  with at least one bit is a prefix of them. The entry of length 0 has no bit to diverge
  from; it is the one entry the second condition leaves out.
\<close>

lemma find_trie_diverges:
  assumes "parse_data es = Inr t"
    and "\<forall>e\<in>set es. \<not> Sublist.prefix (bits q) (position e)"
    and "\<forall>e\<in>set es. position e \<noteq> [] \<longrightarrow> \<not> Sublist.prefix (position e) (bits q)"
  shows "find_trie t q = None"
proof -
  obtain current depth best k
    where w: "find_walk (Some t) 0 None q 0 = (current, depth, best, k)"
    by (metis prod_cases4)
  then have wb: "walk_bits (Some t) 0 None (bits q) 0 = (current, depth, best, k)"
    by (simp add: find_walk_bits)
  have none: "payload_at t zs = None" if "zs \<noteq> []" "Sublist.prefix zs (bits q)" for zs
  proof (rule ccontr)
    assume "payload_at t zs \<noteq> None"
    then obtain v where "payload_at t zs = Some v" by auto
    with assms(1) obtain e where "e \<in> set es" "position e = zs"
      by (auto simp: payload_at_parse_data)
    with assms(3) that show False by auto
  qed
  from walk_bits_best_unchanged [OF wb none] have best: "best = None" .
  show ?thesis
  proof (cases "bits q = []")
    case True
    with assms(2) have "es = []" by (cases es) auto
    with assms(1) have "t = make_node" by (simp add: parse_data_Nil)
    with wb True have "current = Some make_node" by simp
    with best show ?thesis
      using find_trie_walk [OF w] by (simp add: find_descend_make_node)
  next
    case False
    have "node_at t (bits q) = None"
    proof (rule ccontr)
      assume "node_at t (bits q) \<noteq> None"
      with assms(1) False have "\<exists>e\<in>set es. Sublist.prefix (bits q) (position e)"
        using node_at_parse_data [of es t "bits q"] by simp
      with assms(2) show False by blast
    qed
    with walk_bits_current [OF wb] have "current = None" by simp
    with best show ?thesis
      using find_trie_walk [OF w] by simp
  qed
qed

subsection \<open>Evaluation on concrete tables\<close>

lemma find_trie_bits:
  "find_trie t q =
     fst (case walk_bits (Some t) 0 None (bits q) 0 of
            (current, depth, best, k) \<Rightarrow> find_descend current depth best k)"
  by (simp add: find_trie_def find_counted_def find_walk_bits)

lemmas eval_simps = parse_data_def insert_trie_bits position_def bits_nonzero bits_zero
  make_node_def set_children_def find_trie_bits find_descend.simps find_counted_def find_walk_bits
  payload_at_def

section \<open>The claims\<close>

subsection \<open>C1: when a lookup returns no entry\<close>

text \<open>
  Claim C1 as stated, "for every routing table, \<open>find\<close> returns no entry exactly when
  the first loop reaches an absent child with no payload recorded", fails on the empty
  table: for the query of length 0 the first loop pops no bit and ends on the root, an
  existing node, and yet the result is no entry, since the second loop finds the root
  without payload and without children.
\<close>

theorem find_no_entry_counterexample:
  "parse_data [] = Inr make_node \<and>
   find_walk (Some make_node) 0 None \<lparr>address = 0, prefix_length = 0\<rparr> 0 =
     (Some make_node, 0, None, 0) \<and>
   find_trie make_node \<lparr>address = 0, prefix_length = 0\<rparr> = None"
  by (simp add: eval_simps)

text \<open>
  Claim C1, amended. For every table that loads and every query \<open>q\<close>, \<open>find\<close>
  returns no entry exactly when the first loop ends with \<open>current\<close> absent and
  \<open>best\<close> unset, or the table is empty and \<open>q\<close> has length 0. The first loop never
  records the payload of the root: its \<open>best\<close> is the same whatever payload the root
  holds. So a query whose bit path diverges from every table prefix (it is a prefix of
  no entry, and no entry other than \<open>/0\<close> is a prefix of it) returns no entry, also
  when a \<open>/0\<close> entry is present. No bound on the lengths is needed.
\<close>

theorem find_no_entry_iff:
  assumes "parse_data es = Inr t"
  shows "(find_trie t q = None \<longleftrightarrow>
            fst (find_walk (Some t) 0 None q 0) = None \<and>
            fst (snd (snd (find_walk (Some t) 0 None q 0))) = None \<or>
            es = [] \<and> prefix_length q = 0) \<and>
         fst (snd (snd (find_walk (Some (Node p l r)) 0 None q 0))) =
         fst (snd (snd (find_walk (Some (Node None l r)) 0 None q 0))) \<and>
         ((\<forall>e\<in>set es. \<not> Sublist.prefix (bits q) (position e)) \<and>
          (\<forall>e\<in>set es. position e \<noteq> [] \<longrightarrow> \<not> Sublist.prefix (position e) (bits q)) \<longrightarrow>
          find_trie t q = None)"
proof (intro conjI impI)
  obtain current depth best k
    where w: "find_walk (Some t) 0 None q 0 = (current, depth, best, k)"
    by (metis prod_cases4)
  note f = find_trie_walk [OF w]
  show "find_trie t q = None \<longleftrightarrow>
          fst (find_walk (Some t) 0 None q 0) = None \<and>
          fst (snd (snd (find_walk (Some t) 0 None q 0))) = None \<or>
          es = [] \<and> prefix_length q = 0"
  proof (cases best)
    case (Some r)
    have "prefix_length q \<noteq> 0"
    proof
      assume "prefix_length q = 0"
      with w have "best = None" by (simp add: find_walk_bits bits_zero)
      with Some show False by simp
    qed
    with Some show ?thesis by (simp add: f w find_descend_best)
  next
    case None
    show ?thesis
    proof (cases current)
      case cNone: None
      with None show ?thesis by (simp add: f w)
    next
      case (Some n)
      with w have at: "node_at t (bits q) = Some n"
        using find_walk_landed by blast
      show ?thesis
      proof (cases "es = [] \<and> prefix_length q = 0")
        case True
        with assms have "t = make_node" by (simp add: parse_data_Nil)
        moreover from True at have "n = t" by (simp add: bits_zero)
        ultimately have "find_trie t q = None"
          using f None Some by (simp add: find_descend_make_node)
        with True show ?thesis by simp
      next
        case False
        have "populated n"
        proof (cases "bits q = []")
          case True
          with False have "es \<noteq> []" by (simp add: bits_Nil_iff)
          with assms have "populated t" by (rule parse_data_populated)
          with True at show ?thesis by simp
        next
          case False
          with assms at show ?thesis by (rule parse_data_inner_populated)
        qed
        from find_descend_populated [OF this, of depth k] have "find_trie t q \<noteq> None"
          by (auto simp: f None Some)
        with False Some show ?thesis by (auto simp: w)
      qed
    qed
  qed
  show "fst (snd (snd (find_walk (Some (Node p l r)) 0 None q 0))) =
        fst (snd (snd (find_walk (Some (Node None l r)) 0 None q 0)))"
    unfolding find_walk_bits by (rule walk_bits_root_payload)
  assume "(\<forall>e\<in>set es. \<not> Sublist.prefix (bits q) (position e)) \<and>
    (\<forall>e\<in>set es. position e \<noteq> [] \<longrightarrow> \<not> Sublist.prefix (position e) (bits q))"
  with assms show "find_trie t q = None"
    by (blast intro: find_trie_diverges)
qed

text \<open>
  Claim C1 on the table \<open>::/0 \<rightarrow> 7\<close>, \<open>8000::/1 \<rightarrow> 2\<close> and the query \<open>::/1\<close>: the
  query diverges from \<open>8000::/1\<close> at its first bit, the root has no 0-child, the walk
  ends absent with nothing recorded, and the result is no entry although the root holds
  the payload 7.
\<close>

theorem find_no_entry_iff_witness:
  "parse_data [entry 0 0 7, entry (push_bit 127 1) 1 2] =
     Inr (Node (Some 7) None (Some (Node (Some 2) None None))) \<and>
   fst (find_walk (Some (Node (Some 7) None (Some (Node (Some 2) None None)))) 0 None
          \<lparr>address = 0, prefix_length = 1\<rparr> 0) = None \<and>
   fst (snd (snd (find_walk (Some (Node (Some 7) None (Some (Node (Some 2) None None)))) 0 None
          \<lparr>address = 0, prefix_length = 1\<rparr> 0))) = None \<and>
   find_trie (Node (Some 7) None (Some (Node (Some 2) None None)))
     \<lparr>address = 0, prefix_length = 1\<rparr> = None"
proof -
  have pd: "parse_data [entry 0 0 7, entry (push_bit 127 1) 1 2] =
      Inr (Node (Some 7) None (Some (Node (Some 2) None None)))"
    by (simp add: eval_simps)
  have w: "find_walk (Some (Node (Some 7) None (Some (Node (Some 2) None None)))) 0 None
      \<lparr>address = 0, prefix_length = 1\<rparr> 0 = (None, 1, None, 1)"
    by (simp add: eval_simps)
  have p1: "position (entry 0 0 7) = []"
    by (simp add: position_def bits_zero)
  have p2: "position (entry (push_bit 127 1) 1 2) = [True]"
    by (simp add: position_def bits_nonzero bits_zero)
  have q: "bits \<lparr>address = 0, prefix_length = 1\<rparr> = [False]"
    by (simp add: bits_nonzero bits_zero)
  have d1: "\<forall>e\<in>set [entry 0 0 7, entry (push_bit 127 1) 1 2].
      \<not> Sublist.prefix (bits \<lparr>address = 0, prefix_length = 1\<rparr>) (position e)"
    unfolding q using p1 p2 by simp
  have d2: "\<forall>e\<in>set [entry 0 0 7, entry (push_bit 127 1) 1 2].
      position e \<noteq> [] \<longrightarrow> \<not> Sublist.prefix (position e) (bits \<lparr>address = 0, prefix_length = 1\<rparr>)"
    unfolding q using p1 p2 by simp
  note th = find_no_entry_iff [OF pd, where q = "\<lparr>address = 0, prefix_length = 1\<rparr>"
      and p = None and l = None and r = None]
  from th [THEN conjunct2, THEN conjunct2, rule_format, OF conjI [OF d1 d2]]
  have "find_trie (Node (Some 7) None (Some (Node (Some 2) None None)))
      \<lparr>address = 0, prefix_length = 1\<rparr> = None" .
  with pd w show ?thesis by simp
qed

subsection \<open>C2: the fallback descent\<close>

text \<open>
  Claim C2 as stated promises the payload of an entry whenever the walk of the query
  lands on an existing node with nothing recorded. On the empty table the query of length
  0 lands on the root; the descent described by the claim reaches no entry
  (\<open>first_payload_path\<close> is \<open>None\<close>) and \<open>find\<close> returns no entry after one transition.
\<close>

theorem find_fallback_counterexample:
  "parse_data [] = Inr make_node \<and>
   find_walk (Some make_node) 0 None \<lparr>address = 0, prefix_length = 0\<rparr> 0 =
     (Some make_node, 0, None, 0) \<and>
   first_payload_path make_node = None \<and>
   find_counted make_node \<lparr>address = 0, prefix_length = 0\<rparr> = (None, 1)"
  by (simp add: eval_simps)

text \<open>
  Claim C2, amended to non-empty tables. When the table has at least one entry and the
  first loop ends on an existing node \<open>n\<close> with \<open>best\<close> unset, then the descent that
  prefers the 0-child and stops at the first payload (\<open>first_payload_path\<close>, written
  from the words of the specification) reaches a node by some path \<open>ds\<close>; that node is
  the position of exactly one entry \<open>e\<close> of the table, whose bits are the bits of the
  query followed by \<open>ds\<close>; \<open>find\<close> returns the PoP of \<open>e\<close> together with the prefix
  length of \<open>e\<close> itself, which is the length of the query plus the length of \<open>ds\<close>.
  The result is a function of the trie, hence the same at every call.
\<close>

theorem find_fallback:
  assumes "parse_data es = Inr t" and "es \<noteq> []"
    and "find_walk (Some t) 0 None q 0 = (Some n, depth, None, k)"
  shows "\<exists>ds e. first_payload_path n = Some ds \<and> e \<in> set es \<and>
           position e = bits q @ ds \<and>
           (\<forall>e'\<in>set es. position e' = position e \<longrightarrow> e' = e) \<and>
           find_trie t q = Some (entry_pop e, prefix_length (entry_prefix e)) \<and>
           unat (prefix_length (entry_prefix e)) = unat (prefix_length q) + length ds"
proof -
  from assms(3) have at: "node_at t (bits q) = Some n" and d: "depth = prefix_length q"
    using find_walk_landed by blast+
  from assms(1,2) have "populated t" by (rule parse_data_populated)
  with at have "populated n" by (blast intro: populated_node_at)
  from find_descend_populated [OF this, of depth k] obtain ds v
    where ds: "first_payload_path n = Some ds" and v: "payload_at n ds = Some v"
      and fd: "find_descend (Some n) depth None k = (Some (v, depth + of_nat (length ds)), k + length ds)"
    by blast
  from at v have "payload_at t (bits q @ ds) = Some v"
    by (simp add: payload_at_append)
  with assms(1) obtain e where e: "e \<in> set es" "position e = bits q @ ds" "entry_pop e = v"
    by (auto simp: payload_at_parse_data)
  from e(2) have len: "length (position e) = length (bits q) + length ds" by simp
  then have ulen: "unat (prefix_length (entry_prefix e)) = unat (prefix_length q) + length ds"
    by (simp add: length_position length_bits)
  have "prefix_length (entry_prefix e) = of_nat (length (position e))"
    by (simp add: of_nat_length_position)
  also have "\<dots> = depth + of_nat (length ds)"
    by (simp add: len d length_bits)
  finally have "find_trie t q = Some (entry_pop e, prefix_length (entry_prefix e))"
    using find_trie_walk [OF assms(3)] fd e(3) by simp
  moreover have "\<forall>e'\<in>set es. position e' = position e \<longrightarrow> e' = e"
    using position_inj [OF assms(1) e(1)] by blast
  ultimately show ?thesis using ds e ulen by blast
qed

text \<open>
  Claim C2 on the siblings \<open>::/2 \<rightarrow> 5\<close> and \<open>4000::/2 \<rightarrow> 6\<close> with the query
  \<open>::/1\<close>: the walk lands on their parent, the descent takes the 0-child, and the result
  is PoP 5 with length 2.
\<close>

theorem find_fallback_witness:
  "parse_data [entry 0 2 5, entry (push_bit 126 1) 2 6] =
     Inr (Node None (Some (Node None (Some (Node (Some 5) None None))
                                     (Some (Node (Some 6) None None)))) None) \<and>
   find_walk (Some (Node None (Some (Node None (Some (Node (Some 5) None None))
                                     (Some (Node (Some 6) None None)))) None)) 0 None
     \<lparr>address = 0, prefix_length = 1\<rparr> 0 =
     (Some (Node None (Some (Node (Some 5) None None)) (Some (Node (Some 6) None None))),
      1, None, 1) \<and>
   first_payload_path (Node None (Some (Node (Some 5) None None)) (Some (Node (Some 6) None None)))
     = Some [False] \<and>
   find_trie (Node None (Some (Node None (Some (Node (Some 5) None None))
                                     (Some (Node (Some 6) None None)))) None)
     \<lparr>address = 0, prefix_length = 1\<rparr> = Some (5, 2)"
proof -
  let ?n = "Node None (Some (Node (Some 5) None None)) (Some (Node (Some 6) None None))"
  let ?t = "Node None (Some ?n) None"
  have pd: "parse_data [entry 0 2 5, entry (push_bit 126 1) 2 6] = Inr ?t"
    by (simp add: eval_simps)
  have ne: "[entry 0 2 5, entry (push_bit 126 1) 2 6] \<noteq> []" by simp
  have w: "find_walk (Some ?t) 0 None \<lparr>address = 0, prefix_length = 1\<rparr> 0 = (Some ?n, 1, None, 1)"
    by (simp add: eval_simps)
  have f: "first_payload_path ?n = Some [False]" by simp
  from find_fallback [OF pd ne w] f have "find_trie ?t \<lparr>address = 0, prefix_length = 1\<rparr> = Some (5, 2)"
    by (auto simp: eval_simps)
  with pd w f show ?thesis by simp
qed

subsection \<open>C3: the longest prefix wins\<close>

text \<open>
  Claim C3 as stated, for every table containing \<open>P1\<close> and \<open>P2\<close>, fails when the table
  holds a third entry below \<open>P2\<close> on the path of the query: with \<open>::/1 \<rightarrow> 1\<close>,
  \<open>::/2 \<rightarrow> 2\<close>, \<open>::/3 \<rightarrow> 3\<close> and the query \<open>::/3\<close> the result is PoP 3, not the
  PoP 2 of \<open>P2 = ::/2\<close>.
\<close>

theorem find_longest_prefix_counterexample:
  "parse_data [entry 0 1 1, entry 0 2 2, entry 0 3 3] =
     Inr (Node None (Some (Node (Some 1) (Some (Node (Some 2)
            (Some (Node (Some 3) None None)) None)) None)) None) \<and>
   strict_prefix (position (entry 0 1 1)) (position (entry 0 2 2)) \<and>
   Sublist.prefix (position (entry 0 2 2)) (bits \<lparr>address = 0, prefix_length = 3\<rparr>) \<and>
   find_trie (Node None (Some (Node (Some 1) (Some (Node (Some 2)
            (Some (Node (Some 3) None None)) None)) None)) None)
     \<lparr>address = 0, prefix_length = 3\<rparr> = Some (3, 3) \<and>
   entry_pop (entry 0 2 2) \<noteq> 3"
  by (simp add: eval_simps)

text \<open>
  Claim C3, amended: \<open>P2\<close> has to be the longest entry of the table that is a prefix of
  the query. If \<open>P1\<close> and \<open>P2\<close> are entries of a table that loads, \<open>P1\<close> is a strict
  prefix of \<open>P2\<close>, \<open>P2\<close> is a prefix of the query \<open>q\<close> and no entry that is a prefix
  of \<open>q\<close> is longer than \<open>P2\<close>, then \<open>find\<close> returns the PoP of \<open>P2\<close> with the
  length of \<open>P2\<close>, which differs from the length of \<open>P1\<close>. Prefixes are compared as
  the bit sequences the cursor yields (\<open>bits_eq_map\<close> gives them from the address).
\<close>

theorem find_longest_prefix:
  assumes "parse_data es = Inr t" and "P1 \<in> set es" and "P2 \<in> set es"
    and "strict_prefix (position P1) (position P2)"
    and "Sublist.prefix (position P2) (bits q)"
    and "\<forall>e\<in>set es. Sublist.prefix (position e) (bits q) \<longrightarrow>
           length (position e) \<le> length (position P2)"
  shows "find_trie t q = Some (entry_pop P2, prefix_length (entry_prefix P2)) \<and>
         prefix_length (entry_prefix P2) \<noteq> prefix_length (entry_prefix P1)"
proof -
  obtain current depth best k
    where w: "find_walk (Some t) 0 None q 0 = (current, depth, best, k)"
    by (metis prod_cases4)
  from assms(5) obtain ys where ys: "bits q = position P2 @ ys"
    by (auto simp: prefix_def)
  from assms(4) have ne: "position P2 \<noteq> []" by auto
  from assms(1,3) have pv: "payload_at t (position P2) = Some (entry_pop P2)"
    by (rule payload_at_entry)
  have deeper: "payload_at t (position P2 @ zs) = None"
    if "zs \<noteq> []" "Sublist.prefix zs ys" for zs
  proof (rule ccontr)
    assume "payload_at t (position P2 @ zs) \<noteq> None"
    then obtain v where "payload_at t (position P2 @ zs) = Some v" by auto
    with assms(1) obtain e where e: "e \<in> set es" "position e = position P2 @ zs"
      by (auto simp: payload_at_parse_data)
    from e(2) that(2) ys have "Sublist.prefix (position e) (bits q)" by simp
    with assms(6) e(1) have "length (position e) \<le> length (position P2)" by blast
    with e(2) that(1) show False by simp
  qed
  from w ys have "walk_bits (Some t) 0 None (position P2 @ ys) 0 = (current, depth, best, k)"
    by (simp add: find_walk_bits)
  from walk_bits_best_deepest [OF this ne pv deeper]
  have "best = Some (entry_pop P2, prefix_length (entry_prefix P2))"
    by (simp add: of_nat_length_position)
  then have "find_trie t q = Some (entry_pop P2, prefix_length (entry_prefix P2))"
    using find_trie_walk [OF w] by (simp add: find_descend_best)
  moreover from assms(4) have "length (position P1) < length (position P2)"
    by (auto simp: strict_prefix_def prefix_def)
  then have "prefix_length (entry_prefix P2) \<noteq> prefix_length (entry_prefix P1)"
    by (auto simp: length_position)
  ultimately show ?thesis by simp
qed

text \<open>
  Claim C3 on the table \<open>::/1 \<rightarrow> 1\<close>, \<open>::/2 \<rightarrow> 2\<close> and the query \<open>::/3\<close>: the result
  is PoP 2 with length 2.
\<close>

theorem find_longest_prefix_witness:
  "parse_data [entry 0 1 1, entry 0 2 2] =
     Inr (Node None (Some (Node (Some 1) (Some (Node (Some 2) None None)) None)) None) \<and>
   strict_prefix (position (entry 0 1 1)) (position (entry 0 2 2)) \<and>
   Sublist.prefix (position (entry 0 2 2)) (bits \<lparr>address = 0, prefix_length = 3\<rparr>) \<and>
   find_trie (Node None (Some (Node (Some 1) (Some (Node (Some 2) None None)) None)) None)
     \<lparr>address = 0, prefix_length = 3\<rparr> = Some (2, 2)"
proof -
  let ?t = "Node None (Some (Node (Some 1) (Some (Node (Some 2) None None)) None)) None"
  let ?q = "\<lparr>address = 0, prefix_length = 3\<rparr> :: address_prefix"
  have pd: "parse_data [entry 0 1 1, entry 0 2 2] = Inr ?t"
    by (simp add: eval_simps)
  have h1: "entry 0 1 1 \<in> set [entry 0 1 1, entry 0 2 2]"
    and h2: "entry 0 2 2 \<in> set [entry 0 1 1, entry 0 2 2]" by simp_all
  have h3: "strict_prefix (position (entry 0 1 1)) (position (entry 0 2 2))"
    by (simp add: eval_simps)
  have h4: "Sublist.prefix (position (entry 0 2 2)) (bits ?q)"
    by (simp add: eval_simps)
  have h5: "\<forall>e\<in>set [entry 0 1 1, entry 0 2 2]. Sublist.prefix (position e) (bits ?q) \<longrightarrow>
      length (position e) \<le> length (position (entry 0 2 2))"
    by (simp add: eval_simps)
  from find_longest_prefix [OF pd h1 h2 h3 h4 h5] pd h3 h4 show ?thesis by simp
qed

subsection \<open>C4: exact match\<close>

text \<open>
  Claim C4. For every table that loads and every entry \<open>e\<close> of it, \<open>find\<close> on the
  prefix of \<open>e\<close> returns the PoP of \<open>e\<close> with the prefix length of \<open>e\<close>. This
  includes length 0, where the first loop does nothing and the second loop finds the
  payload of the root at depth 0. No bound on the length is needed.
\<close>

theorem find_exact:
  assumes "parse_data es = Inr t" and "e \<in> set es"
  shows "find_trie t (entry_prefix e) = Some (entry_pop e, prefix_length (entry_prefix e))"
proof -
  let ?q = "entry_prefix e"
  obtain current depth best k
    where w: "find_walk (Some t) 0 None ?q 0 = (current, depth, best, k)"
    by (metis prod_cases4)
  from assms have pv: "payload_at t (position e) = Some (entry_pop e)"
    by (rule payload_at_entry)
  show ?thesis
  proof (cases "bits ?q = []")
    case True
    with w have "current = Some t" "depth = 0" "best = None"
      by (simp_all add: find_walk_bits)
    moreover from pv True have "pop t = Some (entry_pop e)"
      by (simp add: position_def)
    moreover from True have "prefix_length ?q = 0"
      by (simp add: bits_Nil_iff)
    ultimately show ?thesis
      using find_trie_walk [OF w] by (simp add: find_descend.simps)
  next
    case False
    from w have "walk_bits (Some t) 0 None (bits ?q @ []) 0 = (current, depth, best, k)"
      by (simp add: find_walk_bits)
    from walk_bits_best_deepest [OF this False, of "entry_pop e"] pv
    have "best = Some (entry_pop e, of_nat (length (bits ?q)))"
      by (simp add: position_def)
    then have "best = Some (entry_pop e, prefix_length ?q)"
      by (simp add: length_bits)
    then show ?thesis
      using find_trie_walk [OF w] by (simp add: find_descend_best)
  qed
qed

text \<open>
  Claim C4 on the table \<open>::/0 \<rightarrow> 9\<close>, \<open>8000::/1 \<rightarrow> 4\<close>: the query \<open>::/0\<close> gives
  PoP 9 with length 0, the query \<open>8000::/1\<close> gives PoP 4 with length 1.
\<close>

theorem find_exact_witness:
  "parse_data [entry 0 0 9, entry (push_bit 127 1) 1 4] =
     Inr (Node (Some 9) None (Some (Node (Some 4) None None))) \<and>
   find_trie (Node (Some 9) None (Some (Node (Some 4) None None)))
     \<lparr>address = 0, prefix_length = 0\<rparr> = Some (9, 0) \<and>
   find_trie (Node (Some 9) None (Some (Node (Some 4) None None)))
     \<lparr>address = push_bit 127 1, prefix_length = 1\<rparr> = Some (4, 1)"
proof -
  have pd: "parse_data [entry 0 0 9, entry (push_bit 127 1) 1 4] =
      Inr (Node (Some 9) None (Some (Node (Some 4) None None)))"
    by (simp add: eval_simps)
  from find_exact [OF pd, of "entry 0 0 9"] find_exact [OF pd, of "entry (push_bit 127 1) 1 4"] pd
  show ?thesis by simp
qed

subsection \<open>C5: the contract of the cursor\<close>

text \<open>
  Claim C5. If the remaining length is 0, \<open>pop_bit\<close> returns none and leaves the
  address as it is (what it does to the length field is the subject of C9). Otherwise
  it returns the most significant bit of the address (bit 127), decrements the remaining
  length by one, and shifts the address left by one bit: bit \<open>i\<close> moves to bit
  \<open>i + 1\<close>, bit 127 is discarded and bit 0 is cleared, so that the next call reads
  what was bit 126.
\<close>

theorem pop_bit_contract:
  "(prefix_length p = 0 \<longrightarrow>
      fst (pop_bit p) = None \<and> address (snd (pop_bit p)) = address p) \<and>
   (prefix_length p \<noteq> 0 \<longrightarrow>
      fst (pop_bit p) = Some (bit (address p) 127) \<and>
      prefix_length (snd (pop_bit p)) = prefix_length p - 1 \<and>
      unat (prefix_length (snd (pop_bit p))) = unat (prefix_length p) - 1 \<and>
      address (snd (pop_bit p)) = push_bit 1 (address p) \<and>
      (\<forall>i. bit (address (snd (pop_bit p))) (Suc i) = (i < 127 \<and> bit (address p) i)) \<and>
      \<not> bit (address (snd (pop_bit p))) 0)"
proof (cases "prefix_length p = 0")
  case True
  then show ?thesis by (simp add: pop_bit_zero)
next
  case False
  have shifted: "bit (push_bit 1 (address p)) (Suc i) = (i < 127 \<and> bit (address p) i)" for i
    unfolding bit_push_bit_iff by (auto simp: possible_bit_word)
  have low: "\<not> bit (push_bit 1 (address p)) 0"
    unfolding bit_push_bit_iff by simp
  have "fst (pop_bit p) = Some (bit (address p) 127)"
    and "prefix_length (snd (pop_bit p)) = prefix_length p - 1"
    and "address (snd (pop_bit p)) = push_bit 1 (address p)"
    by (simp_all only: pop_bit_nonzero [OF False] fst_conv snd_conv address_prefix.select_convs)
  moreover have "unat (prefix_length p - 1) = unat (prefix_length p) - 1"
    using False by (simp add: unat_minus_one)
  ultimately show ?thesis
    using False shifted low by (simp only: simp_thms) 
qed

text \<open>
  Claim C5 on a cursor of length 0 with address 5, and on a cursor of length 2 whose
  address has bit 127 and the low bits 101 set.
\<close>

theorem pop_bit_contract_witness:
  "fst (pop_bit \<lparr>address = 5, prefix_length = 0\<rparr>) = None \<and>
   address (snd (pop_bit \<lparr>address = 5, prefix_length = 0\<rparr>)) = 5 \<and>
   fst (pop_bit \<lparr>address = push_bit 127 1 + 5, prefix_length = 2\<rparr>) = Some True \<and>
   prefix_length (snd (pop_bit \<lparr>address = push_bit 127 1 + 5, prefix_length = 2\<rparr>)) = 1 \<and>
   address (snd (pop_bit \<lparr>address = push_bit 127 1 + 5, prefix_length = 2\<rparr>)) = 10"
  using pop_bit_contract [of "\<lparr>address = 5, prefix_length = 0\<rparr>"]
    pop_bit_contract [of "\<lparr>address = push_bit 127 1 + 5, prefix_length = 2\<rparr>"]
  by (simp add: bit_simps)

subsection \<open>C6: duplicate rejection\<close>

text \<open>
  Claim C6. The node at the position of the entry is the one reached from the root along
  the bits of its prefix; \<open>payload_at\<close> reads its payload, and is \<open>None\<close> when the node
  does not exist yet. If that node holds a payload, \<open>insert\<close> aborts
  (\<open>Inl Duplicate_prefix\<close>, no trie is returned). Otherwise \<open>insert\<close> returns a trie in
  which the payload at that position is the PoP of the entry and the payload at every
  other position is unchanged. Hence inserting a second entry with the same address and
  length aborts, and an abort of one insertion is the result of the whole load.
\<close>

theorem insert_trie_contract:
  "(payload_at t (position e) \<noteq> None \<longrightarrow> insert_trie t e = Inl Duplicate_prefix) \<and>
   (payload_at t (position e) = None \<longrightarrow>
      (\<exists>t'. insert_trie t e = Inr t' \<and>
            (\<forall>cs. payload_at t' cs =
                    (if cs = position e then Some (entry_pop e) else payload_at t cs)))) \<and>
   (\<forall>t' e'. insert_trie t e = Inr t' \<and> entry_prefix e' = entry_prefix e \<longrightarrow>
      insert_trie t' e' = Inl Duplicate_prefix) \<and>
   (\<forall>x es. insert_trie t e = Inl x \<longrightarrow> insert_all t (e # es) = Inl x)"
proof (intro conjI allI impI)
  assume "payload_at t (position e) \<noteq> None"
  then obtain x where "insert_trie t e = Inl x"
    using insert_bits_Inl_iff [of t "position e" "entry_pop e"] by (auto simp: insert_trie_bits)
  then show "insert_trie t e = Inl Duplicate_prefix" by (cases x) simp
next
  assume "payload_at t (position e) = None"
  then obtain t' where t': "insert_trie t e = Inr t'"
    using insert_bits_Inr_iff [of t "position e" "entry_pop e"] by (auto simp: insert_trie_bits)
  then have "insert_bits t (position e) (entry_pop e) = Inr t'"
    by (simp add: insert_trie_bits)
  then have "\<forall>cs. payload_at t' cs =
      (if cs = position e then Some (entry_pop e) else payload_at t cs)"
    by (blast intro: payload_at_insert_bits)
  with t' show "\<exists>t'. insert_trie t e = Inr t' \<and>
      (\<forall>cs. payload_at t' cs = (if cs = position e then Some (entry_pop e) else payload_at t cs))"
    by blast
next
  fix t' and e' :: prefix_and_pop
  assume a: "insert_trie t e = Inr t' \<and> entry_prefix e' = entry_prefix e"
  then have "insert_bits t (position e) (entry_pop e) = Inr t'"
    by (simp add: insert_trie_bits)
  from payload_at_insert_bits [OF this, of "position e"]
  have "payload_at t' (position e) = Some (entry_pop e)" by simp
  moreover from a have "position e' = position e" by (simp add: position_def)
  ultimately have "payload_at t' (position e') \<noteq> None" by simp
  then obtain x where "insert_trie t' e' = Inl x"
    using insert_bits_Inl_iff [of t' "position e'" "entry_pop e'"] by (auto simp: insert_trie_bits)
  then show "insert_trie t' e' = Inl Duplicate_prefix" by (cases x) simp
next
  fix x es
  assume "insert_trie t e = Inl x"
  then show "insert_all t (e # es) = Inl x" by simp
qed

text \<open>
  Claim C6 on the empty trie and the entry \<open>8000::/1 \<rightarrow> 4\<close>: the insertion sets the
  payload of the 1-child of the root, and inserting \<open>8000::/1 \<rightarrow> 8\<close> afterwards aborts.
\<close>

theorem insert_trie_contract_witness:
  "payload_at make_node (position (entry (push_bit 127 1) 1 4)) = None \<and>
   insert_trie make_node (entry (push_bit 127 1) 1 4) =
     Inr (Node None None (Some (Node (Some 4) None None))) \<and>
   payload_at (Node None None (Some (Node (Some 4) None None)))
     (position (entry (push_bit 127 1) 1 4)) = Some 4 \<and>
   insert_trie (Node None None (Some (Node (Some 4) None None))) (entry (push_bit 127 1) 1 8) =
     Inl Duplicate_prefix"
proof -
  let ?e = "entry (push_bit 127 1) 1 4"
  let ?t = "Node None None (Some (Node (Some 4) None None))"
  have free: "payload_at make_node (position ?e) = None" by simp
  have ins: "insert_trie make_node ?e = Inr ?t" by (simp add: eval_simps)
  have same: "entry_prefix (entry (push_bit 127 1) 1 8) = entry_prefix ?e" by simp
  from insert_trie_contract [of make_node ?e] free ins same
  have "payload_at ?t (position ?e) = Some 4
      \<and> insert_trie ?t (entry (push_bit 127 1) 1 8) = Inl Duplicate_prefix"
    by auto
  with free ins show ?thesis by simp
qed

subsection \<open>C7: insertion order\<close>

text \<open>
  Claim C7. If the entries of \<open>es\<close> have pairwise distinct positions and \<open>es'\<close> lists
  the same entries in another order, then both loads succeed and yield the same trie,
  so \<open>find\<close> returns the same result for every query under both orders.
\<close>

theorem insertion_order_irrelevant:
  assumes "distinct (map position es)" and "mset es' = mset es"
  shows "(\<exists>t. parse_data es = Inr t \<and> parse_data es' = Inr t) \<and>
         (\<forall>t t' q. parse_data es = Inr t \<and> parse_data es' = Inr t' \<longrightarrow>
            find_trie t q = find_trie t' q)"
proof -
  from assms(2) have "mset (map position es') = mset (map position es)" by simp
  with assms(1) have d': "distinct (map position es')"
    by (metis mset_eq_imp_distinct_iff)
  from assms(2) have s: "set es = set es'" by (metis set_mset_mset)
  have same: "t = t'" if "parse_data es = Inr t" "parse_data es' = Inr t'" for t t'
    using that s by (rule parse_data_permutation)
  from assms(1) obtain t where t: "parse_data es = Inr t"
    using parse_data_succeeds by blast
  from d' obtain t' where t': "parse_data es' = Inr t'"
    using parse_data_succeeds by blast
  from same [OF t t'] t t' have "\<exists>t. parse_data es = Inr t \<and> parse_data es' = Inr t" by simp
  moreover from same have "\<forall>t t' q. parse_data es = Inr t \<and> parse_data es' = Inr t' \<longrightarrow>
      find_trie t q = find_trie t' q" by blast
  ultimately show ?thesis ..
qed

text \<open>
  Claim C7 on the entries \<open>::/2 \<rightarrow> 5\<close> and \<open>4000::/2 \<rightarrow> 6\<close> in both orders.
\<close>

theorem insertion_order_irrelevant_witness:
  "distinct (map position [entry 0 2 5, entry (push_bit 126 1) 2 6]) \<and>
   mset [entry (push_bit 126 1) 2 6, entry 0 2 5] = mset [entry 0 2 5, entry (push_bit 126 1) 2 6] \<and>
   parse_data [entry 0 2 5, entry (push_bit 126 1) 2 6] =
     Inr (Node None (Some (Node None (Some (Node (Some 5) None None))
                                     (Some (Node (Some 6) None None)))) None) \<and>
   parse_data [entry (push_bit 126 1) 2 6, entry 0 2 5] =
     Inr (Node None (Some (Node None (Some (Node (Some 5) None None))
                                     (Some (Node (Some 6) None None)))) None)"
proof -
  let ?es = "[entry 0 2 5, entry (push_bit 126 1) 2 6]"
  let ?es' = "[entry (push_bit 126 1) 2 6, entry 0 2 5]"
  have d: "distinct (map position ?es)" by (simp add: eval_simps)
  have m: "mset ?es' = mset ?es" by simp
  have pd: "parse_data ?es = Inr (Node None (Some (Node None (Some (Node (Some 5) None None))
                                     (Some (Node (Some 6) None None)))) None)"
    by (simp add: eval_simps)
  from insertion_order_irrelevant [OF d m] pd d m show ?thesis by auto
qed

subsection \<open>C8: lookups return, within a bound\<close>

text \<open>
  Claim C8. \<open>find_walk\<close> and \<open>find_descend\<close> are total functions (their
  termination is proved where they are defined: the remaining length decreases in the
  first loop, the size of the subtree in the second), and the result of \<open>find\<close> is an
  optional pair, so a lookup returns a match or no entry and nothing else. For a table
  whose entries have length at most 128 and every query \<open>q\<close>, the first loop makes at
  most \<open>length q\<close> node transitions, the second at most 128, and the lookup at most
  \<open>length q + 128\<close>. The bound holds for queries of any length.
\<close>

theorem find_bounded:
  assumes "parse_data es = Inr t"
    and "\<forall>e\<in>set es. unat (prefix_length (entry_prefix e)) \<le> 128"
  shows "\<exists>current depth best ka r k.
           find_walk (Some t) 0 None q 0 = (current, depth, best, ka) \<and>
           find_counted t q = (r, k) \<and> find_trie t q = r \<and>
           ka \<le> unat (prefix_length q) \<and> ka \<le> k \<and> k - ka \<le> 128 \<and>
           k \<le> unat (prefix_length q) + 128"
proof -
  obtain current depth best ka
    where w: "find_walk (Some t) 0 None q 0 = (current, depth, best, ka)"
    by (metis prod_cases4)
  obtain r k where fc: "find_counted t q = (r, k)" by (cases "find_counted t q")
  then have fd: "find_descend current depth best ka = (r, k)"
    using find_counted_walk [OF w] by simp
  from fc have ft: "find_trie t q = r" by (simp add: find_trie_def)
  from w have ka: "ka \<le> unat (prefix_length q)"
    using walk_bits_count [of "Some t" 0 None "bits q" 0 current depth best ka]
    by (simp add: find_walk_bits length_bits)
  have kb: "ka \<le> k \<and> k - ka \<le> 128"
  proof (cases "best = None \<and> current \<noteq> None")
    case False
    then have "find_descend current depth best ka = (best, ka)"
      by (cases current) (auto simp: find_descend_best)
    with fd show ?thesis by simp
  next
    case True
    then obtain n where n: "current = Some n" and b: "best = None" by auto
    from w n have at: "node_at t (bits q) = Some n"
      using find_walk_landed by blast
    show ?thesis
    proof (cases "populated n")
      case True
      from find_descend_populated [OF this, of depth ka] obtain ds v
        where v: "payload_at n ds = Some v"
          and d: "find_descend (Some n) depth None ka =
                  (Some (v, depth + of_nat (length ds)), ka + length ds)"
        by blast
      from at v have "node_at t (bits q @ ds) \<noteq> None"
        by (auto simp: node_at_append payload_at_def split: option.splits)
      with assms have "length (bits q @ ds) \<le> 128" by (rule parse_data_depth)
      with d fd n b show ?thesis by auto
    next
      case False
      have "es = []"
      proof (rule ccontr)
        assume "es \<noteq> []"
        with assms(1) have "populated t" by (rule parse_data_populated)
        with at have "populated n" by (blast intro: populated_node_at)
        with False show False ..
      qed
      with assms(1) have "t = make_node" by (simp add: parse_data_Nil)
      with at have "n = make_node" by (auto simp: node_at_make_node split: if_splits)
      with fd n b show ?thesis by (auto simp: find_descend_make_node)
    qed
  qed
  with ka have "k \<le> unat (prefix_length q) + 128" by arith
  with w fc ft ka kb show ?thesis by simp
qed

text \<open>
  Claim C8 on the table \<open>::/2 \<rightarrow> 5\<close> and the query \<open>::/1\<close>: one transition in the
  first loop, one in the second.
\<close>

theorem find_bounded_witness:
  "parse_data [entry 0 2 5] = Inr (Node None (Some (Node None (Some (Node (Some 5) None None)) None)) None) \<and>
   unat (prefix_length (entry_prefix (entry 0 2 5))) \<le> 128 \<and>
   find_walk (Some (Node None (Some (Node None (Some (Node (Some 5) None None)) None)) None)) 0 None
     \<lparr>address = 0, prefix_length = 1\<rparr> 0 =
     (Some (Node None (Some (Node (Some 5) None None)) None), 1, None, 1) \<and>
   find_counted (Node None (Some (Node None (Some (Node (Some 5) None None)) None)) None)
     \<lparr>address = 0, prefix_length = 1\<rparr> = (Some (5, 2), 2) \<and>
   (2 :: nat) \<le> unat (prefix_length \<lparr>address = 0, prefix_length = 1\<rparr>) + 128"
proof -
  let ?t = "Node None (Some (Node None (Some (Node (Some 5) None None)) None)) None"
  let ?q = "\<lparr>address = 0, prefix_length = 1\<rparr> :: address_prefix"
  have pd: "parse_data [entry 0 2 5] = Inr ?t" by (simp add: eval_simps)
  have len: "\<forall>e\<in>set [entry 0 2 5]. unat (prefix_length (entry_prefix e)) \<le> 128" by simp
  have w: "find_walk (Some ?t) 0 None ?q 0 =
      (Some (Node None (Some (Node (Some 5) None None)) None), 1, None, 1)"
    by (simp add: eval_simps)
  have fc: "find_counted ?t ?q = (Some (5, 2), 2)" by (simp add: eval_simps)
  from find_bounded [OF pd len, of ?q] pd w fc show ?thesis by simp
qed

subsection \<open>C9: exhaustion of the cursor is not sticky\<close>

text \<open>
  Claim C9. On a cursor with remaining length 0, \<open>pop_bit\<close> returns none and the
  32-bit length wraps to \<open>2 ^ 32 - 1\<close>; a second call then returns a bit, the most
  significant bit of the address, shifts the address and leaves the length
  \<open>2 ^ 32 - 2\<close>.
\<close>

theorem pop_bit_exhaustion_not_sticky:
  assumes "prefix_length p = 0"
  shows "fst (pop_bit p) = None \<and>
    prefix_length (snd (pop_bit p)) = 4294967295 \<and>
    unat (prefix_length (snd (pop_bit p))) = 2 ^ 32 - 1 \<and>
    fst (pop_bit (snd (pop_bit p))) = Some (bit (address p) 127) \<and>
    address (snd (pop_bit (snd (pop_bit p)))) = push_bit 1 (address p) \<and>
    prefix_length (snd (pop_bit (snd (pop_bit p)))) = 4294967294"
proof -
  define p1 where "p1 = snd (pop_bit p)"
  from assms have first: "pop_bit p = (None, p\<lparr>prefix_length := prefix_length p - 1\<rparr>)"
    by (rule pop_bit_zero)
  with assms have p1: "address p1 = address p" "prefix_length p1 = 4294967295"
    by (simp_all add: p1_def)
  then have nz: "prefix_length p1 \<noteq> 0" by simp
  have second: "pop_bit p1 =
      (Some (bit (address p) 127),
       \<lparr>address = push_bit 1 (address p), prefix_length = 4294967294\<rparr>)"
    using pop_bit_nonzero [OF nz] p1 by simp
  have "unat (4294967295 :: unsigned) = 2 ^ 32 - 1" by simp
  with first p1 second show ?thesis
    unfolding p1_def [symmetric] by simp
qed

text \<open>
  Claim C9 on the cursor of length 0 whose address has only bit 127 set: the first call
  returns none, the second returns 1 and shifts the address to 0.
\<close>

theorem pop_bit_exhaustion_not_sticky_witness:
  "prefix_length \<lparr>address = push_bit 127 1, prefix_length = 0\<rparr> = 0 \<and>
   fst (pop_bit \<lparr>address = push_bit 127 1, prefix_length = 0\<rparr>) = None \<and>
   fst (pop_bit (snd (pop_bit \<lparr>address = push_bit 127 1, prefix_length = 0\<rparr>))) = Some True \<and>
   address (snd (pop_bit (snd (pop_bit \<lparr>address = push_bit 127 1, prefix_length = 0\<rparr>)))) = 0"
proof -
  have h: "prefix_length \<lparr>address = push_bit 127 1, prefix_length = 0\<rparr> = 0" by simp
  show ?thesis
    using h pop_bit_exhaustion_not_sticky [OF h]
    by (simp add: bit_simps)
qed

subsection \<open>C10: every inner node leads to a payload\<close>

text \<open>
  Claim C10. In the trie of every load that succeeds, every node \<open>n\<close> other than the
  root has a payload \<open>v\<close> in its own subtree, at some path \<open>ds\<close> below it, that is,
  \<open>n\<close> lies on the path from the root to a node with a payload. The second loop of
  \<open>find\<close> started at \<open>n\<close> returns such a payload, the one \<open>first_payload_path\<close>
  leads to, with the depth advanced by the length of \<open>ds\<close> and after as many
  transitions. A lookup whose first loop ends on a node other than the root (the query
  has length at least 1) with nothing recorded returns a payload stored below the
  position of the query, with the depth of the node that holds it; it never returns no
  entry.
\<close>

theorem inner_nodes_lead_to_payload:
  assumes "parse_data es = Inr t"
  shows "(\<forall>cs n. cs \<noteq> [] \<and> node_at t cs = Some n \<longrightarrow>
            (\<exists>ds v. first_payload_path n = Some ds \<and>
               payload_at n ds = Some v \<and> payload_at t (cs @ ds) = Some v \<and>
               (\<forall>depth k. find_descend (Some n) depth None k =
                  (Some (v, depth + of_nat (length ds)), k + length ds)))) \<and>
         (\<forall>q n depth k. prefix_length q \<noteq> 0 \<and>
            find_walk (Some t) 0 None q 0 = (Some n, depth, None, k) \<longrightarrow>
            (\<exists>ds v. first_payload_path n = Some ds \<and>
               payload_at n ds = Some v \<and> payload_at t (bits q @ ds) = Some v \<and>
               find_trie t q = Some (v, prefix_length q + of_nat (length ds))) \<and>
            find_trie t q \<noteq> None)"
proof (intro conjI allI impI)
  fix cs n
  assume a: "cs \<noteq> [] \<and> node_at t cs = Some n"
  with assms have p: "populated n" by (blast intro: parse_data_inner_populated)
  from find_descend_populated [OF p, of 0 0] obtain ds v
    where ds: "first_payload_path n = Some ds" and v: "payload_at n ds = Some v"
    by blast
  from v a have "payload_at t (cs @ ds) = Some v"
    by (simp add: payload_at_append)
  moreover have "\<forall>depth k. find_descend (Some n) depth None k =
      (Some (v, depth + of_nat (length ds)), k + length ds)"
    using find_descend_first_payload_path [OF ds v] by blast
  ultimately show "\<exists>ds v. first_payload_path n = Some ds \<and>
      payload_at n ds = Some v \<and> payload_at t (cs @ ds) = Some v \<and>
      (\<forall>depth k. find_descend (Some n) depth None k =
         (Some (v, depth + of_nat (length ds)), k + length ds))"
    using ds v by blast
next
  fix q n depth k
  assume a: "prefix_length q \<noteq> 0 \<and> find_walk (Some t) 0 None q 0 = (Some n, depth, None, k)"
  then have w: "find_walk (Some t) 0 None q 0 = (Some n, depth, None, k)" by simp
  from w have at: "node_at t (bits q) = Some n" and d: "depth = prefix_length q"
    using find_walk_landed by blast+
  from a have "bits q \<noteq> []" by (simp add: bits_Nil_iff)
  with assms at have "populated n" by (rule parse_data_inner_populated)
  from find_descend_populated [OF this, of depth k] obtain ds v
    where ds: "first_payload_path n = Some ds" and v: "payload_at n ds = Some v"
      and fd: "find_descend (Some n) depth None k =
               (Some (v, depth + of_nat (length ds)), k + length ds)"
    by blast
  from at v have below: "payload_at t (bits q @ ds) = Some v"
    by (simp add: payload_at_append)
  from fd d have res: "find_trie t q = Some (v, prefix_length q + of_nat (length ds))"
    using find_trie_walk [OF w] by simp
  from ds v below res
  show "\<exists>ds v. first_payload_path n = Some ds \<and>
      payload_at n ds = Some v \<and> payload_at t (bits q @ ds) = Some v \<and>
      find_trie t q = Some (v, prefix_length q + of_nat (length ds))"
    by blast
  from res show "find_trie t q \<noteq> None" by simp
qed

text \<open>
  Claim C10 on the table \<open>::/2 \<rightarrow> 5\<close>: the node at path 0 has no payload, its 0-child
  holds 5, and both the second loop started there and the query \<open>::/1\<close> return PoP 5
  with depth 2.
\<close>

theorem inner_nodes_lead_to_payload_witness:
  "parse_data [entry 0 2 5] = Inr (Node None (Some (Node None (Some (Node (Some 5) None None)) None)) None) \<and>
   node_at (Node None (Some (Node None (Some (Node (Some 5) None None)) None)) None) [False] =
     Some (Node None (Some (Node (Some 5) None None)) None) \<and>
   first_payload_path (Node None (Some (Node (Some 5) None None)) None) = Some [False] \<and>
   payload_at (Node None (Some (Node (Some 5) None None)) None) [False] = Some 5 \<and>
   find_descend (Some (Node None (Some (Node (Some 5) None None)) None)) 1 None 1 =
     (Some (5, 2), 2) \<and>
   find_trie (Node None (Some (Node None (Some (Node (Some 5) None None)) None)) None)
     \<lparr>address = 0, prefix_length = 1\<rparr> = Some (5, 2)"
proof -
  let ?n = "Node None (Some (Node (Some 5) None None)) None"
  let ?t = "Node None (Some ?n) None"
  let ?q = "\<lparr>address = 0, prefix_length = 1\<rparr> :: address_prefix"
  have pd: "parse_data [entry 0 2 5] = Inr ?t" by (simp add: eval_simps)
  have at: "[False] \<noteq> [] \<and> node_at ?t [False] = Some ?n" by simp
  have w: "prefix_length ?q \<noteq> 0 \<and> find_walk (Some ?t) 0 None ?q 0 = (Some ?n, 1, None, 1)"
    by (simp add: eval_simps)
  have fp: "first_payload_path ?n = Some [False]" by simp
  have pl: "payload_at ?n [False] = Some 5" by (simp add: eval_simps)
  note th = inner_nodes_lead_to_payload [OF pd]
  from th [THEN conjunct1, rule_format, OF at] obtain ds v
    where ds: "first_payload_path ?n = Some ds" and v: "payload_at ?n ds = Some v"
      and run: "\<forall>depth k. find_descend (Some ?n) depth None k =
             (Some (v, depth + of_nat (length ds)), k + length ds)"
    by (elim exE conjE)
  from ds fp have ds_eq: "ds = [False]" by simp
  with v pl have v_eq: "v = 5" by simp
  from run [rule_format, of 1 1]
  have fd: "find_descend (Some ?n) 1 None 1 = (Some (5, 2), 2)"
    unfolding ds_eq v_eq by simp
  from th [THEN conjunct2, rule_format, OF w, THEN conjunct1] obtain ds' v'
    where ds': "first_payload_path ?n = Some ds'" and v': "payload_at ?n ds' = Some v'"
      and res: "find_trie ?t ?q = Some (v', prefix_length ?q + of_nat (length ds'))"
    by (elim exE conjE)
  from ds' fp have ds'_eq: "ds' = [False]" by simp
  with v' pl have v'_eq: "v' = 5" by simp
  from res have ft: "find_trie ?t ?q = Some (5, 2)"
    unfolding ds'_eq v'_eq by simp
  show ?thesis
    by (intro conjI) (rule pd, rule at [THEN conjunct2], rule fp, rule pl, rule fd, rule ft)
qed

end
